theory Spec2Isabelle
  imports Complex_Main "HOL-Library.Sublist" "HOL-Library.Product_Lexorder"
    "HOL-Library.List_Lexorder"
begin

text \<open>
  The text preparation pipeline of \<^verbatim>\<open>nlp_ar_prep.py\<close>: normalization, tokenization, the
  stopword set and filter, the frequency table, the scoring of bigram collocations and
  the extraction of dates and numbers. The stemmers belong to the NLTK library and are
  not part of this development.
\<close>

section \<open>Strings and regular expressions\<close>

text \<open>
  A Python \<^verbatim>\<open>str\<close> is a sequence of Unicode code points; \<^verbatim>\<open>len\<close> counts code points.
\<close>

type_synonym codepoint = nat
type_synonym ustr = "codepoint list"

text \<open>
  The fragment of the \<^verbatim>\<open>re\<close> pattern language that \<^verbatim>\<open>nlp_ar_prep.py\<close> uses: one
  character of a class, the word boundary \<^verbatim>\<open>\b\<close>, concatenation, the greedy \<^verbatim>\<open>?\<close>, and
  the greedy repetitions \<^verbatim>\<open>+\<close>, \<^verbatim>\<open>{n}\<close>, \<^verbatim>\<open>{n,m}\<close> of a character class (upper bound
  \<open>None\<close> for \<^verbatim>\<open>+\<close>). The classes \<^verbatim>\<open>\d\<close> and \<^verbatim>\<open>\w\<close> are tables of the Unicode database;
  a pattern that uses them takes them as parameters.
\<close>

datatype rx =
    Chars "codepoint \<Rightarrow> bool"
  | Bnd "codepoint \<Rightarrow> bool"
  | Seq rx rx
  | Opt rx
  | Rep nat "nat option" "codepoint \<Rightarrow> bool"

definition in_ranges :: "(codepoint \<times> codepoint) list \<Rightarrow> codepoint \<Rightarrow> bool" where
  "in_ranges rs c = list_ex (\<lambda>(lo, hi). lo \<le> c \<and> c \<le> hi) rs"

definition one_of :: "codepoint list \<Rightarrow> codepoint \<Rightarrow> bool" where
  "one_of cs c = list_ex (\<lambda>d. c = d) cs"

definition word_before :: "(codepoint \<Rightarrow> bool) \<Rightarrow> ustr \<Rightarrow> nat \<Rightarrow> bool" where
  "word_before w t p = (0 < p \<and> p \<le> length t \<and> w (t ! (p - 1)))"

definition word_after :: "(codepoint \<Rightarrow> bool) \<Rightarrow> ustr \<Rightarrow> nat \<Rightarrow> bool" where
  "word_after w t p = (p < length t \<and> w (t ! p))"

text \<open>
  \<open>ends r t p\<close> lists every position at which a match of \<open>r\<close> that starts at \<open>p\<close> can
  end, in the order in which the backtracking matcher tries them; the match it reports is
  the first one.
\<close>

fun ends :: "rx \<Rightarrow> ustr \<Rightarrow> nat \<Rightarrow> nat list" where
  "ends (Chars cls) t p = (if p < length t \<and> cls (t ! p) then [Suc p] else [])"
| "ends (Bnd w) t p = (if word_before w t p \<noteq> word_after w t p then [p] else [])"
| "ends (Seq r1 r2) t p = concat (map (ends r2 t) (ends r1 t p))"
| "ends (Opt r) t p = ends r t p @ [p]"
| "ends (Rep lo hi cls) t p =
     (let n = length (takeWhile cls (drop p t));
          m = (case hi of None \<Rightarrow> n | Some h \<Rightarrow> min n h)
      in if m < lo then [] else map (\<lambda>k. p + k) (rev [lo..<Suc m]))"

text \<open>
  The scan of \<^verbatim>\<open>re.finditer\<close>, \<^verbatim>\<open>re.findall\<close> and \<^verbatim>\<open>re.sub\<close>: leftmost matches, each search
  resuming where the last match ended. After an empty match the next search starts at the
  same position and must not be empty there (\<open>adv\<close>).
\<close>

function scan :: "rx \<Rightarrow> ustr \<Rightarrow> nat \<Rightarrow> bool \<Rightarrow> (nat \<times> nat) list" where
  "scan r t p adv =
     (if length t < p then []
      else (case (if adv then filter (\<lambda>e. e \<noteq> p) (ends r t p) else ends r t p) of
              [] \<Rightarrow> scan r t (Suc p) False
            | e # _ \<Rightarrow> (p, e) # scan r t e (e = p)))"
  by pat_completeness auto
termination
proof (relation "measure (\<lambda>(r, t, p, adv). 2 * (Suc (length t) - p) + (if adv then 0 else 1))",
       goal_cases)
  case 1
  show ?case by simp
next
  case (2 r t p adv)
  then show ?case by auto
next
  case (3 r t p adv e es)
  have ge: "q \<le> e'" if "e' \<in> set (ends r' t q)" for r' q e'
    using that by (induction r' arbitrary: q e') (fastforce simp: Let_def split: if_splits)+
  from 3 have "e \<in> set (if adv then filter (\<lambda>e. e \<noteq> p) (ends r t p) else ends r t p)"
    by simp
  then have "p \<le> e" and "adv \<longrightarrow> e \<noteq> p"
    by (auto dest: ge split: if_splits)
  with 3 show ?case by auto
qed

declare scan.simps [simp del]

definition finditer :: "rx \<Rightarrow> ustr \<Rightarrow> (nat \<times> nat) list" where
  "finditer r t = scan r t 0 False"

definition group0 :: "ustr \<Rightarrow> nat \<times> nat \<Rightarrow> ustr" where
  "group0 t = (\<lambda>(s, e). take (e - s) (drop s t))"

definition findall :: "rx \<Rightarrow> ustr \<Rightarrow> ustr list" where
  "findall r t = map (group0 t) (finditer r t)"

fun rebuild :: "ustr \<Rightarrow> ustr \<Rightarrow> nat \<Rightarrow> (nat \<times> nat) list \<Rightarrow> ustr" where
  "rebuild repl t p [] = drop p t"
| "rebuild repl t p ((s, e) # ms) = take (s - p) (drop p t) @ repl @ rebuild repl t e ms"

definition re_sub :: "rx \<Rightarrow> ustr \<Rightarrow> ustr \<Rightarrow> ustr" where
  "re_sub r repl t = rebuild repl t 0 (finditer r t)"

section \<open>Normalization\<close>

definition AR_DIACRITICS :: rx where
  "AR_DIACRITICS = Chars (in_ranges [(0x0617, 0x061A), (0x064B, 0x0652)])"

definition AR_TATWEEL :: rx where
  "AR_TATWEEL = Chars (one_of [0x0640])"

definition normalize_arabic :: "ustr \<Rightarrow> bool \<Rightarrow> ustr" where
  "normalize_arabic text convert_ta_marbuta =
     (let text = re_sub AR_DIACRITICS [] text;
          text = re_sub AR_TATWEEL [] text;
          text = re_sub (Chars (one_of [0x0625, 0x0623, 0x0622, 0x0627])) [0x0627] text;
          text = re_sub (Chars (one_of [0x0649])) [0x064A] text;
          text = re_sub (Chars (one_of [0x0624])) [0x0648] text;
          text = re_sub (Chars (one_of [0x0626])) [0x064A] text
      in if convert_ta_marbuta then re_sub (Chars (one_of [0x0629])) [0x0647] text
         else text)"

definition subst_char :: "(codepoint \<Rightarrow> bool) \<Rightarrow> ustr \<Rightarrow> codepoint \<Rightarrow> ustr" where
  "subst_char cls repl c = (if cls c then repl else [c])"

text \<open>What the seven substitutions of \<open>normalize_arabic\<close>, in their order, make of one character.\<close>

definition norm_char :: "bool \<Rightarrow> codepoint \<Rightarrow> ustr" where
  "norm_char convert_ta_marbuta c =
     (if in_ranges [(0x0617, 0x061A), (0x064B, 0x0652)] c \<or> c = 0x0640 then []
      else if one_of [0x0625, 0x0623, 0x0622, 0x0627] c then [0x0627]
      else if c = 0x0649 \<or> c = 0x0626 then [0x064A]
      else if c = 0x0624 then [0x0648]
      else if convert_ta_marbuta \<and> c = 0x0629 then [0x0647]
      else [c])"

section \<open>Tokenization\<close>

definition AR_LETTERS :: rx where
  "AR_LETTERS = Rep 1 None (in_ranges [(0x0621, 0x063A), (0x0641, 0x064A)])"

definition tokenize_ar :: "ustr \<Rightarrow> ustr list" where
  "tokenize_ar text = findall AR_LETTERS text"

section \<open>Stopwords\<close>

text \<open>\<^verbatim>\<open>str.split(sep)\<close> for a separator of one character, and \<^verbatim>\<open>str.strip()\<close>.\<close>

fun split_on :: "codepoint \<Rightarrow> ustr \<Rightarrow> ustr list" where
  "split_on sep [] = [[]]"
| "split_on sep (c # cs) =
     (if c = sep then [] # split_on sep cs
      else (case split_on sep cs of [] \<Rightarrow> [[c]] | w # ws \<Rightarrow> (c # w) # ws))"

text \<open>\<^verbatim>\<open>sep.join(pieces)\<close>, the inverse of \<^verbatim>\<open>split\<close>.\<close>

fun join :: "codepoint \<Rightarrow> ustr list \<Rightarrow> ustr" where
  "join sep [] = []"
| "join sep [w] = w"
| "join sep (w # v # ws) = w @ sep # join sep (v # ws)"

definition isspace :: "codepoint \<Rightarrow> bool" where
  "isspace = in_ranges [(0x09, 0x0D), (0x1C, 0x20), (0x85, 0x85), (0xA0, 0xA0),
     (0x1680, 0x1680), (0x2000, 0x200A), (0x2028, 0x2029), (0x202F, 0x202F),
     (0x205F, 0x205F), (0x3000, 0x3000)]"

definition strip :: "ustr \<Rightarrow> ustr" where
  "strip w = rev (dropWhile isspace (rev (dropWhile isspace w)))"

text \<open>
  The stopword list of the NLTK corpus, \<^verbatim>\<open>AR_STOPWORDS_RAW\<close>, is data outside the program:
  it is a parameter.
\<close>

definition build_stopwords :: "ustr set \<Rightarrow> bool \<Rightarrow> ustr \<Rightarrow> ustr set" where
  "build_stopwords AR_STOPWORDS_RAW convert_ta_marbuta extra =
     (let base = (\<lambda>w. normalize_arabic w convert_ta_marbuta) ` AR_STOPWORDS_RAW;
          extra_items = set (map strip (filter (\<lambda>w. strip w \<noteq> [])
                         (if extra \<noteq> [] then split_on 0x2C extra else [])));
          extra_norm = (\<lambda>w. normalize_arabic w convert_ta_marbuta) ` extra_items
      in base \<union> extra_norm)"

definition remove_stopwords :: "ustr list \<Rightarrow> ustr set \<Rightarrow> int \<Rightarrow> ustr list" where
  "remove_stopwords tokens stop_set min_len =
     filter (\<lambda>t. t \<notin> stop_set \<and> min_len \<le> int (length t)) tokens"

section \<open>Frequencies\<close>

text \<open>
  \<^verbatim>\<open>Counter(tokens)\<close> is a dictionary in insertion order, filled by
  \<^verbatim>\<open>d[x] = d.get(x, 0) + 1\<close> for each token; \<^verbatim>\<open>most_common(n)\<close> is
  \<^verbatim>\<open>heapq.nlargest(n, items, key=count)\<close>: nothing for \<open>n \<le> 0\<close>, and otherwise the first
  \<open>n\<close> items of the stable sort by descending count.
\<close>

fun counter_add :: "'a \<Rightarrow> ('a \<times> nat) list \<Rightarrow> ('a \<times> nat) list" where
  "counter_add x [] = [(x, 1)]"
| "counter_add x ((y, n) # kvs) =
     (if x = y then (y, Suc n) # kvs else (y, n) # counter_add x kvs)"

definition Counter :: "'a list \<Rightarrow> ('a \<times> nat) list" where
  "Counter xs = foldl (\<lambda>d x. counter_add x d) [] xs"

definition most_common :: "int \<Rightarrow> ('a \<times> nat) list \<Rightarrow> ('a \<times> nat) list" where
  "most_common n items =
     (if n \<le> 0 then [] else take (nat n) (sort_key (\<lambda>(w, c). - int c) items))"

definition freq :: "'a list \<Rightarrow> int \<Rightarrow> ('a \<times> nat) list" where
  "freq no_stop topk = most_common topk (Counter no_stop)"

definition first_pos :: "'a list \<Rightarrow> 'a \<Rightarrow> nat" where
  "first_pos xs x = length (takeWhile (\<lambda>y. y \<noteq> x) xs)"

text \<open>
  The distinct tokens in the order of their first appearance, and the ranking of the
  frequency table: higher count first, and among equal counts the token that appears
  first in the input.
\<close>

definition first_seen :: "'a list \<Rightarrow> 'a list" where
  "first_seen xs = rev (remdups (rev xs))"

definition rank_before :: "'a list \<Rightarrow> 'a \<times> nat \<Rightarrow> 'a \<times> nat \<Rightarrow> bool" where
  "rank_before tokens a b =
     (snd b < snd a \<or> (snd a = snd b \<and> first_pos tokens (fst a) < first_pos tokens (fst b)))"

section \<open>Dates and numbers\<close>

definition ascii :: "string \<Rightarrow> ustr" where
  "ascii s = map of_char s"

definition lit :: "string \<Rightarrow> codepoint \<Rightarrow> bool" where
  "lit s = one_of (ascii s)"

definition DATE_ISO :: "(codepoint \<Rightarrow> bool) \<Rightarrow> (codepoint \<Rightarrow> bool) \<Rightarrow> rx" where
  "DATE_ISO d w =
     Seq (Bnd w) (Seq (Rep 4 (Some 4) d) (Seq (Chars (lit ''-'')) (Seq (Rep 2 (Some 2) d)
       (Seq (Chars (lit ''-'')) (Seq (Rep 2 (Some 2) d) (Bnd w))))))"

definition DATE_SL :: "(codepoint \<Rightarrow> bool) \<Rightarrow> (codepoint \<Rightarrow> bool) \<Rightarrow> rx" where
  "DATE_SL d w =
     Seq (Bnd w) (Seq (Rep 1 (Some 2) d) (Seq (Chars (lit ''/'')) (Seq (Rep 1 (Some 2) d)
       (Seq (Chars (lit ''/'')) (Seq (Rep 4 (Some 4) d) (Bnd w))))))"

definition NUM_RE :: "(codepoint \<Rightarrow> bool) \<Rightarrow> (codepoint \<Rightarrow> bool) \<Rightarrow> rx" where
  "NUM_RE d w =
     Seq (Bnd w) (Seq (Rep 1 None d) (Seq (Opt (Seq (Chars (lit ''.'')) (Rep 1 None d))) (Bnd w)))"

definition extract_dates :: "(codepoint \<Rightarrow> bool) \<Rightarrow> (codepoint \<Rightarrow> bool) \<Rightarrow> ustr \<Rightarrow> ustr list" where
  "extract_dates d w text = findall (DATE_ISO d w) text @ findall (DATE_SL d w) text"

definition find_spans :: "rx \<Rightarrow> ustr \<Rightarrow> (nat \<times> nat) list" where
  "find_spans pattern text = finditer pattern text"

text \<open>The loop of \<open>extract_numbers_excluding_dates\<close> over the matches of \<open>NUM_RE\<close>.\<close>

fun nums_loop :: "(nat \<times> nat) list \<Rightarrow> ustr \<Rightarrow> (nat \<times> nat) list \<Rightarrow> ustr list \<Rightarrow> ustr list" where
  "nums_loop date_spans text [] nums = nums"
| "nums_loop date_spans text (m # ms) nums =
     (let s = fst m
      in if \<not> list_ex (\<lambda>(ds, de). ds \<le> s \<and> s < de) date_spans
         then nums_loop date_spans text ms (nums @ [group0 text m])
         else nums_loop date_spans text ms nums)"

definition extract_numbers_excluding_dates ::
  "(codepoint \<Rightarrow> bool) \<Rightarrow> (codepoint \<Rightarrow> bool) \<Rightarrow> ustr \<Rightarrow> ustr list" where
  "extract_numbers_excluding_dates d w text =
     (let date_spans = find_spans (DATE_ISO d w) text @ find_spans (DATE_SL d w) text
      in nums_loop date_spans text (finditer (NUM_RE d w) text) [])"

text \<open>The classes \<^verbatim>\<open>\d\<close> and \<^verbatim>\<open>\w\<close> on the ASCII characters.\<close>

definition ascii_digit :: "codepoint \<Rightarrow> bool" where
  "ascii_digit = in_ranges [(0x30, 0x39)]"

definition ascii_word :: "codepoint \<Rightarrow> bool" where
  "ascii_word = in_ranges [(0x30, 0x39), (0x41, 0x5A), (0x5F, 0x5F), (0x61, 0x7A)]"

section \<open>Collocations\<close>

text \<open>
  Modelled from the spec: the collocation finder and its measure
  (\<^verbatim>\<open>BigramCollocationFinder\<close>, \<^verbatim>\<open>BigramAssocMeasures.pmi\<close>) are code of the NLTK library,
  which is not among the sources; \<^verbatim>\<open>main\<close> only calls them. The spec (4.6) gives the
  steps: the counts of every unigram and of every adjacent bigram, the filter on the
  bigram counts, the score of each surviving bigram, the sort. For the totals of the
  score and for the order of ties it defers to the reference behaviour, which is the
  library's as documented: the frequency tables are dictionaries in insertion order, a
  missing key counts 0; \<^verbatim>\<open>apply_freq_filter\<close> removes the bigrams whose count is less than
  \<^verbatim>\<open>min_freq\<close>; the score is \<open>log2 (n_ii * N) - log2 (n_ix * n_xi)\<close> with one total \<open>N\<close>,
  the number of tokens; \<^verbatim>\<open>score_ngrams\<close> sorts by the key \<open>(- score, ngram)\<close>, tuples and
  strings compared lexicographically. Scores are real numbers here, not floating-point
  numbers.
\<close>

definition bigrams :: "'a list \<Rightarrow> ('a \<times> 'a) list" where
  "bigrams words = zip words (tl words)"

definition fd_count :: "('k \<times> nat) list \<Rightarrow> 'k \<Rightarrow> nat" where
  "fd_count fd k = (case map_of fd k of None \<Rightarrow> 0 | Some n \<Rightarrow> n)"

definition fd_N :: "('k \<times> nat) list \<Rightarrow> nat" where
  "fd_N fd = sum_list (map snd fd)"

definition apply_freq_filter :: "int \<Rightarrow> ('k \<times> nat) list \<Rightarrow> ('k \<times> nat) list" where
  "apply_freq_filter min_freq ngram_fd = filter (\<lambda>(ngram, c). \<not> int c < min_freq) ngram_fd"

definition pmi :: "real \<Rightarrow> real \<times> real \<Rightarrow> real \<Rightarrow> real" where
  "pmi n_ii n_ix_xi n_xx = log 2 (n_ii * n_xx) - log 2 (fst n_ix_xi * snd n_ix_xi)"

definition score_ngram ::
  "(ustr \<times> nat) list \<Rightarrow> ((ustr \<times> ustr) \<times> nat) list \<Rightarrow> ustr \<times> ustr \<Rightarrow> real option" where
  "score_ngram word_fd ngram_fd = (\<lambda>(w1, w2).
     (let n_all = fd_N word_fd;
          n_ii = fd_count ngram_fd (w1, w2)
      in if n_ii = 0 then None
         else Some (pmi (real n_ii) (real (fd_count word_fd w1), real (fd_count word_fd w2))
                 (real n_all))))"

definition score_ngrams ::
  "(ustr \<times> nat) list \<Rightarrow> ((ustr \<times> ustr) \<times> nat) list \<Rightarrow> ((ustr \<times> ustr) \<times> real) list" where
  "score_ngrams word_fd ngram_fd =
     sort_key (\<lambda>(ngram, score). (- score, ngram))
       (List.map_filter
          (\<lambda>(ngram, c). map_option (Pair ngram) (score_ngram word_fd ngram_fd ngram))
          ngram_fd)"

text \<open>Lines 184 to 189 of \<^verbatim>\<open>main\<close>.\<close>

definition scored :: "ustr list \<Rightarrow> int \<Rightarrow> ((ustr \<times> ustr) \<times> real) list" where
  "scored no_stop args_min_freq =
     (let min_freq = max 1 args_min_freq;
          word_fd = Counter no_stop;
          ngram_fd = Counter (bigrams no_stop);
          ngram_fd = (if 1 < min_freq then apply_freq_filter min_freq ngram_fd else ngram_fd)
      in score_ngrams word_fd ngram_fd)"

text \<open>
  The bigrams that pass the filter, the score in terms of the counts of the token
  sequence, the bigram table after the filter of \<^verbatim>\<open>main\<close>, and the ranking of the scored
  list.
\<close>

definition survives :: "ustr list \<Rightarrow> int \<Rightarrow> ustr \<times> ustr \<Rightarrow> bool" where
  "survives tokens min_freq bg =
     (bg \<in> set (bigrams tokens) \<and> max 1 min_freq \<le> int (count_list (bigrams tokens) bg))"

definition nltk_pmi :: "ustr list \<Rightarrow> ustr \<times> ustr \<Rightarrow> real" where
  "nltk_pmi tokens bg =
     log 2 (real (count_list (bigrams tokens) bg) * real (length tokens))
     - log 2 (real (count_list tokens (fst bg)) * real (count_list tokens (snd bg)))"

definition kept :: "ustr list \<Rightarrow> int \<Rightarrow> ((ustr \<times> ustr) \<times> nat) list" where
  "kept tokens mf =
     (if 1 < max 1 mf then apply_freq_filter (max 1 mf) (Counter (bigrams tokens))
      else Counter (bigrams tokens))"


section \<open>Properties of the regular expression matcher\<close>

lemma ends_ge: "e \<in> set (ends r t p) \<Longrightarrow> p \<le> e"
  by (induction r arbitrary: p e) (fastforce simp: Let_def split: if_splits)+

lemma scan_start_ge: "(s, e) \<in> set (scan r t p adv) \<Longrightarrow> p \<le> s"
proof (induction r t p adv rule: scan.induct)
  case (1 r t p adv)
  show ?case
  proof (cases "length t < p")
    case True
    with 1(3) show ?thesis by (simp add: scan.simps)
  next
    case False
    let ?c = "if adv then filter (\<lambda>e. e \<noteq> p) (ends r t p) else ends r t p"
    show ?thesis
    proof (cases ?c)
      case Nil
      with False 1(3) have "(s, e) \<in> set (scan r t (Suc p) False)"
        by (subst (asm) scan.simps) simp
      with 1(1) [OF False Nil] show ?thesis by simp
    next
      case (Cons e' es)
      then have "e' \<in> set ?c" by simp
      then have pe: "p \<le> e'" by (auto dest: ends_ge split: if_splits)
      from False Cons 1(3) have "(s, e) = (p, e') \<or> (s, e) \<in> set (scan r t e' (e' = p))"
        by (subst (asm) scan.simps) simp
      with 1(2) [OF False Cons] pe show ?thesis by auto
    qed
  qed
qed

lemma rebuild_skip:
  "p \<le> q \<Longrightarrow> \<forall>(s, e) \<in> set ms. q \<le> s \<Longrightarrow>
   rebuild repl t p ms = take (q - p) (drop p t) @ rebuild repl t q ms"
proof (cases ms)
  case Nil
  assume "p \<le> q"
  then have "drop p t = take (q - p) (drop p t) @ drop q t"
    by (metis append_take_drop_id drop_drop le_add_diff_inverse2)
  with Nil show ?thesis by simp
next
  case (Cons m ms')
  assume pq: "p \<le> q" and all: "\<forall>(s, e) \<in> set ms. q \<le> s"
  obtain s e where m: "m = (s, e)" by (cases m)
  with Cons all have qs: "q \<le> s" by simp
  have "take (s - p) (drop p t) = take (q - p) (drop p t) @ take (s - q) (drop q t)"
  proof -
    have "s - p = (q - p) + (s - q)" using pq qs by simp
    moreover have "drop (q - p) (drop p t) = drop q t" using pq by simp
    ultimately show ?thesis by (simp add: take_add)
  qed
  with Cons m show ?thesis by simp
qed

lemma rebuild_scan_Chars:
  "p \<le> length t \<Longrightarrow>
   rebuild repl t p (scan (Chars cls) t p False) = concat (map (subst_char cls repl) (drop p t))"
proof (induction "length t - p" arbitrary: p)
  case 0
  then have "p = length t" by simp
  then show ?case by (simp add: scan.simps [of _ t "length t"] scan.simps [of _ t "Suc (length t)"])
next
  case (Suc n)
  then have lt: "p < length t" by simp
  then have d: "drop p t = t ! p # drop (Suc p) t" by (simp add: Cons_nth_drop_Suc)
  have ih: "rebuild repl t (Suc p) (scan (Chars cls) t (Suc p) False)
      = concat (map (subst_char cls repl) (drop (Suc p) t))"
    using Suc lt by (intro Suc(1)) auto
  show ?case
  proof (cases "cls (t ! p)")
    case True
    with lt have "scan (Chars cls) t p False = (p, Suc p) # scan (Chars cls) t (Suc p) False"
      by (subst scan.simps) simp
    with ih d True show ?thesis by (simp add: subst_char_def)
  next
    case False
    with lt have sc: "scan (Chars cls) t p False = scan (Chars cls) t (Suc p) False"
      by (subst scan.simps) simp
    have "rebuild repl t p (scan (Chars cls) t (Suc p) False)
        = take (Suc p - p) (drop p t) @ rebuild repl t (Suc p) (scan (Chars cls) t (Suc p) False)"
      by (rule rebuild_skip) (auto dest: scan_start_ge)
    with sc ih d False show ?thesis by (simp add: subst_char_def)
  qed
qed

lemma re_sub_Chars: "re_sub (Chars cls) repl t = concat (map (subst_char cls repl) t)"
  using rebuild_scan_Chars [of 0 t repl cls] by (simp add: re_sub_def finditer_def)

lemma scan_ends: "(s, e) \<in> set (scan r t p adv) \<Longrightarrow> e \<in> set (ends r t s)"
proof (induction r t p adv rule: scan.induct)
  case (1 r t p adv)
  show ?case
  proof (cases "length t < p")
    case True
    with 1(3) show ?thesis by (simp add: scan.simps)
  next
    case False
    let ?c = "if adv then filter (\<lambda>e. e \<noteq> p) (ends r t p) else ends r t p"
    show ?thesis
    proof (cases ?c)
      case Nil
      with False 1(3) have "(s, e) \<in> set (scan r t (Suc p) False)"
        by (subst (asm) scan.simps) simp
      with 1(1) [OF False Nil] show ?thesis by simp
    next
      case (Cons e' es)
      then have "e' \<in> set ?c" by simp
      then have pe: "e' \<in> set (ends r t p)" by (auto split: if_splits)
      from False Cons 1(3) have "(s, e) = (p, e') \<or> (s, e) \<in> set (scan r t e' (e' = p))"
        by (subst (asm) scan.simps) simp
      with 1(2) [OF False Cons] pe show ?thesis by auto
    qed
  qed
qed

lemma take_takeWhile: "k \<le> length (takeWhile P xs) \<Longrightarrow> take k xs = take k (takeWhile P xs)"
proof (induction xs arbitrary: k)
  case Nil
  then show ?case by simp
next
  case (Cons x xs)
  then show ?case by (cases k) (auto split: if_splits)
qed

lemma Rep_match:
  assumes "e \<in> set (ends (Rep lo None cls) t s)"
  shows "lo \<le> length (group0 t (s, e)) \<and> (\<forall>c \<in> set (group0 t (s, e)). cls c)"
proof -
  let ?n = "length (takeWhile cls (drop s t))"
  from assms have b: "lo + s \<le> e \<and> e \<le> ?n + s"
    by (auto simp: Let_def split: if_splits)
  define k where "k = e - s"
  with b have k: "e = s + k" "lo \<le> k" "k \<le> ?n"
    by auto
  then have tk: "take k (drop s t) = take k (takeWhile cls (drop s t))"
    by (intro take_takeWhile)
  have "set (take k (takeWhile cls (drop s t))) \<subseteq> set (takeWhile cls (drop s t))"
    by (rule set_take_subset)
  then have all: "\<forall>c \<in> set (take k (drop s t)). cls c"
    unfolding tk by (auto dest: set_takeWhileD)
  have "length (take k (drop s t)) = k"
    unfolding tk using k(3) by simp
  with k all show ?thesis by (simp add: group0_def)
qed

lemmas normalize_unfold =
  normalize_arabic_def AR_DIACRITICS_def AR_TATWEEL_def re_sub_Chars Let_def

lemma normalize_arabic_append:
  "normalize_arabic (xs @ ys) b = normalize_arabic xs b @ normalize_arabic ys b"
  by (simp add: normalize_unfold)

lemma normalize_arabic_single: "normalize_arabic [c] b = norm_char b c"
  by (simp add: normalize_unfold subst_char_def norm_char_def one_of_def in_ranges_def)

lemma normalize_arabic_chars: "normalize_arabic t b = concat (map (norm_char b) t)"
proof (induction t)
  case Nil
  show ?case by (simp add: normalize_unfold)
next
  case (Cons c t)
  have "normalize_arabic (c # t) b = normalize_arabic [c] b @ normalize_arabic t b"
    using normalize_arabic_append [of "[c]" t b] by simp
  with Cons show ?case by (simp add: normalize_arabic_single)
qed

lemma norm_char_fixed: "d \<in> set (norm_char b c) \<Longrightarrow> norm_char b d = [d]"
  by (auto simp: norm_char_def one_of_def in_ranges_def split: if_splits)

lemma concat_map_fixed: "\<forall>x \<in> set xs. f x = [x] \<Longrightarrow> concat (map f xs) = xs"
  by (induction xs) simp_all

lemma normalize_arabic_twice:
  "normalize_arabic (normalize_arabic s p) p = normalize_arabic s p"
proof -
  have "\<forall>d \<in> set (concat (map (norm_char p) s)). norm_char p d = [d]"
    by (auto dest: norm_char_fixed)
  then show ?thesis
    by (simp only: normalize_arabic_chars concat_map_fixed)
qed

section \<open>Properties of splitting and trimming\<close>

lemma split_on_nonempty: "split_on sep s \<noteq> []"
  by (induction s) (auto split: list.splits)

lemma join_split_on: "join sep (split_on sep s) = s"
proof (induction s)
  case Nil
  show ?case by simp
next
  case (Cons c cs)
  obtain w ws where sp: "split_on sep cs = w # ws"
    using split_on_nonempty [of sep cs] by (cases "split_on sep cs") auto
  with Cons show ?case by (cases ws) auto
qed

lemma split_on_no_sep: "w \<in> set (split_on sep s) \<Longrightarrow> sep \<notin> set w"
  by (induction s arbitrary: w) (auto split: if_splits list.splits)

lemma strip_decompose:
  "\<exists>pre post. w = pre @ strip w @ post \<and> (\<forall>c \<in> set pre. isspace c) \<and> (\<forall>c \<in> set post. isspace c)"
proof -
  let ?pre = "takeWhile isspace w"
  let ?mid = "dropWhile isspace w"
  let ?post = "rev (takeWhile isspace (rev ?mid))"
  have "rev ?mid = takeWhile isspace (rev ?mid) @ dropWhile isspace (rev ?mid)"
    by simp
  then have "?mid = rev (dropWhile isspace (rev ?mid)) @ ?post"
    by (metis rev_append rev_rev_ident)
  then have "w = ?pre @ strip w @ ?post"
    by (metis strip_def takeWhile_dropWhile_id)
  moreover have "\<forall>c \<in> set ?pre. isspace c" by (auto dest: set_takeWhileD)
  moreover have "\<forall>c \<in> set ?post. isspace c" by (auto dest: set_takeWhileD)
  ultimately show ?thesis by blast
qed

lemma strip_ends:
  "strip w \<noteq> [] \<Longrightarrow> \<not> isspace (hd (strip w)) \<and> \<not> isspace (last (strip w))"
proof -
  assume ne: "strip w \<noteq> []"
  let ?mid = "dropWhile isspace w"
  let ?r = "dropWhile isspace (rev ?mid)"
  from ne have r: "?r \<noteq> []" by (simp add: strip_def)
  then have "\<not> isspace (hd ?r)" by (rule hd_dropWhile)
  with r have l: "\<not> isspace (last (strip w))" by (simp add: strip_def last_rev)
  have m: "?mid \<noteq> []"
  proof
    assume "?mid = []"
    then have "?r = []" by (simp only: rev.simps dropWhile.simps)
    with r show False by simp
  qed
  then have h: "\<not> isspace (hd ?mid)" by (rule hd_dropWhile)
  have "hd (strip w) = hd ?mid"
  proof -
    obtain post where "?mid = strip w @ post"
      by (metis strip_def append_take_drop_id rev_append rev_rev_ident takeWhile_dropWhile_id)
    with ne show ?thesis by (metis hd_append2)
  qed
  with h l show ?thesis by simp
qed

lemma strip_decompose_all:
  "\<exists>pre post. w = pre @ strip w @ post \<and> list_all isspace pre \<and> list_all isspace post"
  using strip_decompose [of w] by (simp add: list_all_iff)

lemma strip_Nil: "strip [] = []"
  by (simp add: strip_def)

section \<open>Properties of the frequency table\<close>

lemma first_seen_snoc:
  "first_seen (xs @ [x]) = (if x \<in> set xs then first_seen xs else first_seen xs @ [x])"
  by (simp add: first_seen_def)

lemma set_first_seen: "set (first_seen xs) = set xs"
  by (simp add: first_seen_def)

lemma distinct_first_seen: "distinct (first_seen xs)"
  by (simp add: first_seen_def)

lemma length_first_seen: "length (first_seen xs) = card (set xs)"
  using length_remdups_card_conv [of "rev xs"] by (simp add: first_seen_def)

lemma counter_add_map:
  "distinct ks \<Longrightarrow>
   counter_add x (map (\<lambda>w. (w, f w)) ks) =
     (if x \<in> set ks then map (\<lambda>w. (w, if w = x then Suc (f w) else f w)) ks
      else map (\<lambda>w. (w, f w)) ks @ [(x, 1)])"
  by (induction ks) auto

lemma Counter_snoc: "Counter (xs @ [x]) = counter_add x (Counter xs)"
  by (simp add: Counter_def)

lemma Counter_eq: "Counter xs = map (\<lambda>w. (w, count_list xs w)) (first_seen xs)"
proof (induction xs rule: rev_induct)
  case Nil
  show ?case by (simp add: Counter_def first_seen_def)
next
  case (snoc x xs)
  show ?case
  proof (cases "x \<in> set xs")
    case True
    then show ?thesis
      by (simp add: Counter_snoc snoc counter_add_map distinct_first_seen set_first_seen
          first_seen_snoc)
  next
    case False
    then have "count_list xs x = 0" by (simp add: count_list_0_iff)
    moreover have "map (\<lambda>w. (w, count_list xs w)) (first_seen xs)
        = map (\<lambda>w. (w, count_list (xs @ [x]) w)) (first_seen xs)"
      using False by (auto simp: set_first_seen)
    ultimately show ?thesis using False
      by (simp add: Counter_snoc snoc counter_add_map distinct_first_seen set_first_seen
          first_seen_snoc)
  qed
qed

lemma first_pos_less: "x \<in> set xs \<Longrightarrow> first_pos xs x < length xs"
  unfolding first_pos_def by (induction xs) auto

lemma first_pos_snoc_old: "w \<in> set xs \<Longrightarrow> first_pos (xs @ [x]) w = first_pos xs w"
  unfolding first_pos_def by (induction xs) auto

lemma first_pos_snoc_new: "x \<notin> set xs \<Longrightarrow> first_pos (xs @ [x]) x = length xs"
  unfolding first_pos_def by (induction xs) auto

lemma first_seen_sorted:
  "sorted_wrt (\<lambda>a b. first_pos xs a < first_pos xs b) (first_seen xs)"
proof (induction xs rule: rev_induct)
  case Nil
  show ?case by (simp add: first_seen_def)
next
  case (snoc x xs)
  have old: "sorted_wrt (\<lambda>a b. first_pos (xs @ [x]) a < first_pos (xs @ [x]) b) (first_seen xs)"
    using snoc by (rule sorted_wrt_mono_rel [rotated]) (simp add: set_first_seen first_pos_snoc_old)
  show ?case
  proof (cases "x \<in> set xs")
    case True
    with old show ?thesis by (simp add: first_seen_snoc)
  next
    case False
    with old show ?thesis
      by (simp add: first_seen_snoc sorted_wrt_append set_first_seen first_pos_snoc_old
          first_pos_snoc_new first_pos_less)
  qed
qed

lemma sorted_wrt_filter_nth:
  "sorted_wrt R (filter P xs) \<Longrightarrow> i < j \<Longrightarrow> j < length xs \<Longrightarrow> P (xs ! i) \<Longrightarrow> P (xs ! j)
   \<Longrightarrow> R (xs ! i) (xs ! j)"
proof (induction xs arbitrary: i j)
  case Nil
  then show ?case by simp
next
  case (Cons x xs)
  show ?case
  proof (cases i)
    case 0
    with Cons.prems obtain j' where j: "j = Suc j'" "j' < length xs" by (cases j) auto
    with Cons.prems 0 have "xs ! j' \<in> set (filter P xs)" by simp
    with Cons.prems 0 j show ?thesis by simp
  next
    case (Suc i')
    with Cons.prems obtain j' where j: "j = Suc j'" "j' < length xs" "i' < j'" by (cases j) auto
    from Cons.prems have "sorted_wrt R (filter P xs)" by (simp split: if_splits)
    from Cons.IH [OF this j(3) j(2)] Cons.prems Suc j show ?thesis by simp
  qed
qed

lemma sorted_Counter_ranked:
  "sorted_wrt (rank_before tokens) (sort_key (\<lambda>(w, c). - int c) (Counter tokens))"
proof -
  let ?f = "\<lambda>(w, c). - int c :: int"
  let ?C = "Counter tokens"
  let ?S = "sort_key ?f ?C"
  let ?FP = "\<lambda>a b. first_pos tokens (fst a) < first_pos tokens (fst b)"
  have C: "sorted_wrt ?FP ?C"
    using first_seen_sorted [of tokens] by (simp add: Counter_eq sorted_wrt_map)
  have "rank_before tokens (?S ! i) (?S ! j)" if ij: "i < j" "j < length ?S" for i j
  proof -
    have "sorted (map ?f ?S)" by (rule sorted_sort_key)
    with ij have le: "?f (?S ! i) \<le> ?f (?S ! j)"
      by (auto simp: sorted_iff_nth_mono)
    show ?thesis
    proof (cases "?f (?S ! i) = ?f (?S ! j)")
      case False
      with le show ?thesis by (auto simp: rank_before_def split: prod.splits)
    next
      case True
      let ?P = "\<lambda>y. ?f y = ?f (?S ! j)"
      have "filter ?P ?S = filter ?P ?C" by (rule sort_key_stable)
      with C have "sorted_wrt ?FP (filter ?P ?S)" by (simp add: sorted_wrt_filter)
      from sorted_wrt_filter_nth [OF this ij True] have "?FP (?S ! i) (?S ! j)" by simp
      with True show ?thesis by (auto simp: rank_before_def split: prod.splits)
    qed
  qed
  then show ?thesis by (simp add: sorted_wrt_iff_nth_less)
qed

lemma set_Counter: "set (Counter tokens) = (\<lambda>w. (w, count_list tokens w)) ` set tokens"
  by (simp add: Counter_eq set_first_seen)

lemma distinct_keys_Counter: "distinct (map fst (Counter tokens))"
  by (simp add: Counter_eq distinct_first_seen comp_def)

lemma length_Counter: "length (Counter tokens) = card (set tokens)"
  by (simp add: Counter_eq length_first_seen)

lemma distinct_keys_sorted:
  "distinct (map fst (sort_key f (Counter tokens)))"
  using distinct_keys_Counter [of tokens] by (simp add: distinct_map)

lemma most_common_cases:
  "most_common k items = [] \<and> k \<le> 0 \<or>
   most_common k items = take (nat k) (sort_key (\<lambda>(w, c). - int c) items) \<and> 0 < k"
  by (simp add: most_common_def)

lemma freq_prefix:
  "\<exists>n. freq tokens k = take n (sort_key (\<lambda>(w, c). - int c) (Counter tokens)) \<and>
       (k \<le> 0 \<longrightarrow> n = 0) \<and> (0 \<le> k \<longrightarrow> n = nat k)"
  by (cases "k \<le> 0") (auto simp: freq_def most_common_def)

section \<open>Properties of the extraction of dates and numbers\<close>

lemma nums_loop_filter:
  "nums_loop date_spans text ms nums =
     nums @ map (group0 text)
       (filter (\<lambda>(s, e). \<not> (\<exists>(ds, de) \<in> set date_spans. ds \<le> s \<and> s < de)) ms)"
  by (induction ms arbitrary: nums) (auto simp: list_ex_iff Let_def)

lemma date_text: "ascii ''2025-09-09 and 120'' =
  [0x32, 0x30, 0x32, 0x35, 0x2D, 0x30, 0x39, 0x2D, 0x30, 0x39, 0x20, 0x61, 0x6E, 0x64, 0x20, 0x31, 0x32, 0x30]"
  by (simp add: ascii_def)

lemma date_iso_example:
  assumes "\<forall>c<128. d c = ascii_digit c \<and> w c = ascii_word c"
  shows "finditer (DATE_ISO d w) (ascii ''2025-09-09 and 120'') = [(0, 10)]"
proof -
  from assms have d: "c < 128 \<Longrightarrow> d c = ascii_digit c" and w: "c < 128 \<Longrightarrow> w c = ascii_word c" for c
    by auto
  show ?thesis
    unfolding date_text finditer_def DATE_ISO_def
    by (simp add: scan.simps d w ascii_digit_def ascii_word_def in_ranges_def one_of_def lit_def
        ascii_def word_before_def word_after_def Let_def)
qed

lemmas scan_eval =
  scan.simps ascii_digit_def ascii_word_def in_ranges_def one_of_def lit_def
  ascii_def word_before_def word_after_def Let_def

lemma date_sl_example:
  assumes "\<forall>c<128. d c = ascii_digit c \<and> w c = ascii_word c"
  shows "finditer (DATE_SL d w) (ascii ''2025-09-09 and 120'') = []"
proof -
  from assms have d: "c < 128 \<Longrightarrow> d c = ascii_digit c" and w: "c < 128 \<Longrightarrow> w c = ascii_word c" for c
    by auto
  show ?thesis
    unfolding date_text finditer_def DATE_SL_def
    by (simp add: scan_eval d w)
qed

lemma num_example:
  assumes "\<forall>c<128. d c = ascii_digit c \<and> w c = ascii_word c"
  shows "finditer (NUM_RE d w) (ascii ''2025-09-09 and 120'') = [(0, 4), (5, 7), (8, 10), (15, 18)]"
proof -
  from assms have d: "c < 128 \<Longrightarrow> d c = ascii_digit c" and w: "c < 128 \<Longrightarrow> w c = ascii_word c" for c
    by auto
  show ?thesis
    unfolding date_text finditer_def NUM_RE_def
    by (simp add: scan_eval d w)
qed

lemma group0_date:
  "group0 (ascii ''2025-09-09 and 120'') (0, 10) = ascii ''2025-09-09''"
  "group0 (ascii ''2025-09-09 and 120'') (15, 18) = ascii ''120''"
  by (simp_all add: group0_def ascii_def)

section \<open>Properties of the collocation scores\<close>

lemma count_list_pos: "x \<in> set xs \<Longrightarrow> 0 < count_list xs x"
  using count_list_0_iff [of xs x] by (cases "count_list xs x") auto

lemma map_of_keyed:
  "map_of (map (\<lambda>w. (w, f w)) ks) k = (if k \<in> set ks then Some (f k) else None)"
  by (induction ks) auto

lemma fd_count_Counter: "fd_count (Counter xs) k = count_list xs k"
  by (simp add: fd_count_def Counter_eq map_of_keyed set_first_seen count_list_0_iff)

lemma fd_N_Counter: "fd_N (Counter xs) = length xs"
proof -
  have "fd_N (Counter xs) = sum_list (map (count_list xs) (first_seen xs))"
    by (simp add: fd_N_def Counter_eq comp_def)
  also have "\<dots> = sum (count_list xs) (set xs)"
    using sum_list_distinct_conv_sum_set [OF distinct_first_seen, of "count_list xs" xs]
    by (simp add: set_first_seen)
  also have "\<dots> = length xs"
    by (rule sum_count_set) simp_all
  finally show ?thesis .
qed

lemma fd_count_filter:
  assumes "distinct (map fst fd)" "(k, c) \<in> set fd" "P (k, c)"
  shows "fd_count (filter P fd) k = c"
proof -
  from assms(1) have "distinct (map fst (filter P fd))"
    by (simp add: distinct_map_filter)
  moreover from assms have "(k, c) \<in> set (filter P fd)" by simp
  ultimately have "map_of (filter P fd) k = Some c" by simp
  then show ?thesis by (simp add: fd_count_def)
qed

lemma set_map_filter: "set (List.map_filter g xs) = {y. \<exists>x \<in> set xs. g x = Some y}"
proof -
  have "y \<in> set (List.map_filter g xs) \<longleftrightarrow> (\<exists>x \<in> set xs. g x = Some y)" for y
    by (induction xs) (auto simp: List.map_filter_simps split: option.splits)
  then show ?thesis by blast
qed

lemma kept_filter:
  "kept tokens mf = filter (\<lambda>(ngram, c). max 1 mf \<le> int c) (Counter (bigrams tokens))"
proof (cases "1 < max 1 mf")
  case True
  then show ?thesis by (simp add: kept_def apply_freq_filter_def not_less)
next
  case False
  then have m: "max 1 mf = 1" by simp
  have "\<forall>x \<in> set (Counter (bigrams tokens)). (case x of (ngram, c) \<Rightarrow> 1 \<le> int c)"
    by (auto simp: set_Counter dest: count_list_pos)
  then have "filter (\<lambda>(ngram, c). (1::int) \<le> int c) (Counter (bigrams tokens)) = Counter (bigrams tokens)"
    by (simp only: filter_True)
  with False m show ?thesis by (simp only: kept_def if_False)
qed

lemma set_kept:
  "set (kept tokens mf) = (\<lambda>bg. (bg, count_list (bigrams tokens) bg)) ` {bg. survives tokens mf bg}"
  by (auto simp: kept_filter set_Counter survives_def)

lemma distinct_kept: "distinct (map fst (kept tokens mf))"
  unfolding kept_filter using distinct_keys_Counter [of "bigrams tokens"]
  by (simp add: distinct_map_filter)

lemma fd_count_kept:
  "survives tokens mf bg \<Longrightarrow> fd_count (kept tokens mf) bg = count_list (bigrams tokens) bg"
proof -
  assume s: "survives tokens mf bg"
  then have "(bg, count_list (bigrams tokens) bg) \<in> set (Counter (bigrams tokens))"
    by (simp add: set_Counter survives_def)
  moreover from s have "(\<lambda>(ngram, c). max 1 mf \<le> int c) (bg, count_list (bigrams tokens) bg)"
    by (simp add: survives_def)
  ultimately show ?thesis
    unfolding kept_filter using distinct_keys_Counter [of "bigrams tokens"]
    by (intro fd_count_filter) 
qed

lemma score_kept:
  assumes "survives tokens mf bg"
  shows "score_ngram (Counter tokens) (kept tokens mf) bg = Some (nltk_pmi tokens bg)"
proof -
  obtain w1 w2 where bg: "bg = (w1, w2)" by (cases bg)
  from assms have "0 < count_list (bigrams tokens) bg"
    by (simp add: survives_def count_list_pos)
  with assms bg show ?thesis
    by (simp add: score_ngram_def Let_def fd_count_kept fd_count_Counter fd_N_Counter pmi_def
        nltk_pmi_def)
qed

lemma scored_unfold:
  "scored tokens mf = score_ngrams (Counter tokens) (kept tokens mf)"
  by (simp add: scored_def kept_def Let_def)

lemma set_scored:
  "set (scored tokens mf) = (\<lambda>bg. (bg, nltk_pmi tokens bg)) ` {bg. survives tokens mf bg}"
proof -
  let ?g = "\<lambda>(ngram, c). map_option (Pair ngram)
              (score_ngram (Counter tokens) (kept tokens mf) ngram)"
  have "set (scored tokens mf) = {y. \<exists>x \<in> set (kept tokens mf). ?g x = Some y}"
    by (simp add: scored_unfold score_ngrams_def set_map_filter)
  also have "\<dots> = (\<lambda>bg. (bg, nltk_pmi tokens bg)) ` {bg. survives tokens mf bg}"
    by (auto simp: set_kept score_kept)
  finally show ?thesis .
qed

lemma distinct_scored: "distinct (map fst (scored tokens mf))"
proof -
  let ?g = "\<lambda>(ngram, c). map_option (Pair ngram)
              (score_ngram (Counter tokens) (kept tokens mf) ngram)"
  have "map fst (List.map_filter ?g (kept tokens mf))
      = map fst (filter (\<lambda>x. ?g x \<noteq> None) (kept tokens mf))"
    by (auto simp: List.map_filter_def split: prod.splits)
  moreover have "distinct (map fst (filter (\<lambda>x. ?g x \<noteq> None) (kept tokens mf)))"
    using distinct_kept by (simp add: distinct_map_filter)
  ultimately have "distinct (map fst (List.map_filter ?g (kept tokens mf)))"
    by simp
  then show ?thesis
    by (simp add: scored_unfold score_ngrams_def distinct_map)
qed

lemma score_lookup:
  "survives tokens mf bg \<Longrightarrow> map_of (scored tokens mf) bg = Some (nltk_pmi tokens bg)"
  using distinct_scored [of tokens mf] by (simp add: set_scored)

lemma bigram_tokens:
  "(w1, w2) \<in> set (bigrams tokens) \<Longrightarrow> w1 \<in> set tokens \<and> w2 \<in> set tokens"
  unfolding bigrams_def by (cases tokens) (auto dest: set_zip_leftD set_zip_rightD)

lemma nltk_pmi_ratio:
  assumes "(w1, w2) \<in> set (bigrams tokens)"
  shows "nltk_pmi tokens (w1, w2) =
     log 2 ((real (count_list (bigrams tokens) (w1, w2)) / real (length tokens)) /
            ((real (count_list tokens w1) / real (length tokens)) *
             (real (count_list tokens w2) / real (length tokens))))"
proof -
  let ?cb = "real (count_list (bigrams tokens) (w1, w2))"
  let ?c1 = "real (count_list tokens w1)" and ?c2 = "real (count_list tokens w2)"
  let ?L = "real (length tokens)"
  from assms have cb: "0 < ?cb" by (simp add: count_list_pos)
  from assms have "w1 \<in> set tokens" "w2 \<in> set tokens" by (auto dest: bigram_tokens)
  then have c: "0 < ?c1" "0 < ?c2" by (simp_all add: count_list_pos)
  from \<open>w1 \<in> set tokens\<close> have L: "0 < ?L" by (cases tokens) auto
  have e1: "(?cb / ?L) / ((?c1 / ?L) * (?c2 / ?L)) = (?cb * ?L) / (?c1 * ?c2)"
    using L by (simp add: field_simps)
  have e2: "log 2 ((?cb * ?L) / (?c1 * ?c2)) = log 2 (?cb * ?L) - log 2 (?c1 * ?c2)"
    using cb c L by (intro log_divide_pos) simp_all
  show ?thesis by (simp only: nltk_pmi_def fst_conv snd_conv e1 e2)
qed

lemma abab_survives:
  "survives [ascii ''a'', ascii ''b'', ascii ''a'', ascii ''b''] 1 (ascii ''a'', ascii ''b'')"
  by (simp add: survives_def bigrams_def ascii_def)

lemma abab_counts:
  "count_list (bigrams [ascii ''a'', ascii ''b'', ascii ''a'', ascii ''b'']) (ascii ''a'', ascii ''b'') = 2"
  "count_list [ascii ''a'', ascii ''b'', ascii ''a'', ascii ''b''] (ascii ''a'') = 2"
  "count_list [ascii ''a'', ascii ''b'', ascii ''a'', ascii ''b''] (ascii ''b'') = 2"
  "length [ascii ''a'', ascii ''b'', ascii ''a'', ascii ''b''] = 4"
  by (simp_all add: bigrams_def ascii_def)

lemma abab_score:
  "map_of (scored [ascii ''a'', ascii ''b'', ascii ''a'', ascii ''b''] 1) (ascii ''a'', ascii ''b'') = Some 1"
proof -
  have "nltk_pmi [ascii ''a'', ascii ''b'', ascii ''a'', ascii ''b''] (ascii ''a'', ascii ''b'')
      = log 2 (2 * 4) - log 2 (2 * 2)"
    unfolding nltk_pmi_def fst_conv snd_conv abab_counts by simp
  also have "\<dots> = log 2 ((2 * 4) / (2 * 2))"
    by (intro log_divide_pos [symmetric]) simp_all
  also have "\<dots> = 1" by simp
  finally show ?thesis
    using score_lookup [OF abab_survives] by simp
qed

lemma spec_value: "1 < log 2 ((2 / 3) / ((2 / 4) * (2 / 4)))"
proof -
  have "(2::real) < (2 / 3) / ((2 / 4) * (2 / 4))" by simp
  then show ?thesis by (subst one_less_log_cancel_iff) simp_all
qed

lemma length_bigrams: "length (bigrams tokens) = length tokens - 1"
  by (simp add: bigrams_def)

lemma nth_bigrams: "Suc i < length tokens \<Longrightarrow> bigrams tokens ! i = (tokens ! i, tokens ! Suc i)"
  by (simp add: bigrams_def nth_tl)

lemma scored_keys:
  "fst ` set (scored tokens mf) =
     {bg \<in> set (bigrams tokens). max 1 mf \<le> int (count_list (bigrams tokens) bg)}"
  by (auto simp: set_scored survives_def image_iff)

lemma scored_short: "length tokens < 2 \<Longrightarrow> scored tokens mf = []"
proof -
  assume "length tokens < 2"
  then have "bigrams tokens = []"
    using length_bigrams [of tokens] by (cases "bigrams tokens") auto
  then have "set (scored tokens mf) = {}"
    by (simp add: set_scored survives_def)
  then show ?thesis by simp
qed





lemma bab_survives:
  "survives [ascii ''b'', ascii ''a'', ascii ''b''] 1 (ascii ''b'', ascii ''a'')"
  "survives [ascii ''b'', ascii ''a'', ascii ''b''] 1 (ascii ''a'', ascii ''b'')"
  by (simp_all add: survives_def bigrams_def ascii_def)



section \<open>Normalization is idempotent\<close>

text \<open>
  Claim C7. Normalizing a second time under the same ta-marbuta policy changes nothing:
  for every string \<open>s\<close> and policy flag \<open>p\<close>,
  \<open>normalize (normalize (s, p), p) = normalize (s, p)\<close>.
\<close>

theorem normalize_arabic_idempotent:
  "normalize_arabic (normalize_arabic s p) p = normalize_arabic s p"
  by (rule normalize_arabic_twice)

section \<open>Tokens are runs of Arabic letters\<close>

text \<open>
  Claim C9. For every input string, normalized or not, every token that the tokenizer
  returns is non-empty and all its characters lie in U+0621..U+063A or U+0641..U+064A;
  so no token contains the tatweel U+0640, a diacritic mark, a digit (ASCII, Arabic-Indic
  or extended Arabic-Indic), an ASCII character or the Arabic comma, semicolon or question
  mark.
\<close>

theorem tokenize_ar_letters:
  "\<forall>tok \<in> set (tokenize_ar text).
     tok \<noteq> [] \<and>
     (\<forall>c \<in> set tok.
        ((0x0621 \<le> c \<and> c \<le> 0x063A) \<or> (0x0641 \<le> c \<and> c \<le> 0x064A)) \<and>
        c \<noteq> 0x0640 \<and>
        \<not> in_ranges [(0x0617, 0x061A), (0x064B, 0x0652)] c \<and>
        \<not> in_ranges [(0x30, 0x39), (0x0660, 0x0669), (0x06F0, 0x06F9)] c \<and>
        \<not> c < 0x80 \<and> \<not> one_of [0x060C, 0x061B, 0x061F] c)"
proof
  fix tok
  assume "tok \<in> set (tokenize_ar text)"
  then obtain s e where se: "(s, e) \<in> set (finditer AR_LETTERS text)" and tok: "tok = group0 text (s, e)"
    by (auto simp: tokenize_ar_def findall_def)
  from se have "e \<in> set (ends AR_LETTERS text s)"
    by (simp add: finditer_def scan_ends)
  then have m: "1 \<le> length tok \<and> (\<forall>c \<in> set tok. in_ranges [(0x0621, 0x063A), (0x0641, 0x064A)] c)"
    unfolding tok AR_LETTERS_def by (rule Rep_match)
  then have "tok \<noteq> []" by auto
  moreover have "((0x0621 \<le> c \<and> c \<le> 0x063A) \<or> (0x0641 \<le> c \<and> c \<le> 0x064A)) \<and>
        c \<noteq> 0x0640 \<and>
        \<not> in_ranges [(0x0617, 0x061A), (0x064B, 0x0652)] c \<and>
        \<not> in_ranges [(0x30, 0x39), (0x0660, 0x0669), (0x06F0, 0x06F9)] c \<and>
        \<not> c < 0x80 \<and> \<not> one_of [0x060C, 0x061B, 0x061F] c" if "c \<in> set tok" for c
  proof -
    from m that have "in_ranges [(0x0621, 0x063A), (0x0641, 0x064A)] c" by blast
    then show ?thesis by (auto simp: in_ranges_def one_of_def)
  qed
  ultimately show "tok \<noteq> [] \<and>
     (\<forall>c \<in> set tok.
        ((0x0621 \<le> c \<and> c \<le> 0x063A) \<or> (0x0641 \<le> c \<and> c \<le> 0x064A)) \<and>
        c \<noteq> 0x0640 \<and>
        \<not> in_ranges [(0x0617, 0x061A), (0x064B, 0x0652)] c \<and>
        \<not> in_ranges [(0x30, 0x39), (0x0660, 0x0669), (0x06F0, 0x06F9)] c \<and>
        \<not> c < 0x80 \<and> \<not> one_of [0x060C, 0x061B, 0x061F] c)" by blast
qed

lemma tokenize_example:
  "tokenize_ar [0x0627, 0x0644, 0x0640, 0x0633, 0x20, 0x0645, 0x064B, 0x0646, 0x31]
     = [[0x0627, 0x0644], [0x0633], [0x0645], [0x0646]]"
  by code_simp

theorem tokenize_ar_letters_witness:
  "[0x0627, 0x0644] \<in> set (tokenize_ar [0x0627, 0x0644, 0x0640, 0x0633, 0x20, 0x0645, 0x064B, 0x0646, 0x31])
   \<and> [0x0627, 0x0644] \<noteq> ([] :: ustr)
   \<and> list_all (\<lambda>c. c \<noteq> 0x0640 \<and> \<not> c < 0x80) [0x0627, 0x0644 :: codepoint]"
  using tokenize_ar_letters [of "[0x0627, 0x0644, 0x0640, 0x0633, 0x20, 0x0645, 0x064B, 0x0646, 0x31]"]
  by (simp add: tokenize_example)

section \<open>The stopword and length filter\<close>

text \<open>
  Claim C4. For every token sequence, stopword set and integer \<open>minLen\<close>, the filter
  returns a subsequence of the input in the input's order and without deduplication: a
  token occurs in the result as often as in the input if it is absent from the stopword
  set and has at least \<open>minLen\<close> characters, and not at all otherwise. For
  \<open>minLen \<le> 0\<close> exactly the tokens that are no stopwords are kept.
\<close>

theorem remove_stopwords_filter:
  "subseq (remove_stopwords tokens stop_set min_len) tokens \<and>
   (\<forall>t. count_list (remove_stopwords tokens stop_set min_len) t =
      (if t \<notin> stop_set \<and> min_len \<le> int (length t) then count_list tokens t else 0)) \<and>
   (min_len \<le> 0 \<longrightarrow>
      remove_stopwords tokens stop_set min_len = filter (\<lambda>t. t \<notin> stop_set) tokens)"
proof (intro conjI allI impI)
  show "subseq (remove_stopwords tokens stop_set min_len) tokens"
    by (simp add: remove_stopwords_def)
next
  fix t
  show "count_list (remove_stopwords tokens stop_set min_len) t =
      (if t \<notin> stop_set \<and> min_len \<le> int (length t) then count_list tokens t else 0)"
    unfolding remove_stopwords_def by (induction tokens) auto
next
  assume "min_len \<le> 0"
  then have "min_len \<le> int (length t)" for t :: ustr by simp
  then show "remove_stopwords tokens stop_set min_len = filter (\<lambda>t. t \<notin> stop_set) tokens"
    by (simp add: remove_stopwords_def)
qed

theorem remove_stopwords_filter_witness:
  "(0::int) \<le> 0 \<and>
   remove_stopwords [ascii ''ab'', ascii ''c'', ascii ''de'', ascii ''ab''] {ascii ''de''} 0
     = filter (\<lambda>t. t \<notin> {ascii ''de''}) [ascii ''ab'', ascii ''c'', ascii ''de'', ascii ''ab''] \<and>
   remove_stopwords [ascii ''ab'', ascii ''c'', ascii ''de'', ascii ''ab''] {ascii ''de''} 0
     = [ascii ''ab'', ascii ''c'', ascii ''ab'']"
proof -
  have "remove_stopwords [ascii ''ab'', ascii ''c'', ascii ''de'', ascii ''ab''] {ascii ''de''} 0
     = [ascii ''ab'', ascii ''c'', ascii ''ab'']"
    by code_simp
  with remove_stopwords_filter
         [of "[ascii ''ab'', ascii ''c'', ascii ''de'', ascii ''ab'']" "{ascii ''de''}" 0]
  show ?thesis by simp
qed

section \<open>The frequency table\<close>

text \<open>
  Claim C5. For every token sequence and integer \<open>k\<close>, the top-K list consists of
  distinct tokens of the input, each with its number of occurrences; it is ordered by
  count descending, tokens of equal count in the order of their first appearance; its
  length is \<open>min k d\<close> for \<open>k \<ge> 0\<close>, where \<open>d\<close> is the number of distinct tokens;
  every token of the input that is not returned has at most the count of every returned
  entry, and ranks after it; \<open>k \<le> 0\<close> gives the empty list, and so does the empty token
  sequence.
\<close>

theorem freq_top_k:
  "(\<forall>(w, c) \<in> set (freq tokens k). w \<in> set tokens \<and> c = count_list tokens w) \<and>
   distinct (map fst (freq tokens k)) \<and>
   sorted_wrt (rank_before tokens) (freq tokens k) \<and>
   (0 \<le> k \<longrightarrow> length (freq tokens k) = min (nat k) (card (set tokens))) \<and>
   (\<forall>a \<in> set (freq tokens k). \<forall>v \<in> set tokens. v \<notin> fst ` set (freq tokens k) \<longrightarrow>
      count_list tokens v \<le> snd a \<and> rank_before tokens a (v, count_list tokens v)) \<and>
   (k \<le> 0 \<longrightarrow> freq tokens k = []) \<and>
   freq [] k = []"
proof -
  let ?S = "sort_key (\<lambda>(w, c). - int c) (Counter tokens)"
  obtain n where r: "freq tokens k = take n ?S"
    and n0: "k \<le> 0 \<Longrightarrow> n = 0" and nk: "0 \<le> k \<Longrightarrow> n = nat k"
    using freq_prefix [of tokens k] by blast
  have sub: "set (take n ?S) \<subseteq> (\<lambda>w. (w, count_list tokens w)) ` set tokens"
    using set_take_subset [of n ?S] by (simp add: set_Counter)
  have 1: "\<forall>(w, c) \<in> set (freq tokens k). w \<in> set tokens \<and> c = count_list tokens w"
    using sub unfolding r by auto
  have 2: "distinct (map fst (freq tokens k))"
  proof -
    have "distinct (take n (map fst ?S))"
      using distinct_keys_sorted by (rule distinct_take)
    then show ?thesis unfolding r by (simp only: take_map)
  qed
  have S: "sorted_wrt (rank_before tokens) ?S"
    by (rule sorted_Counter_ranked)
  then have 3: "sorted_wrt (rank_before tokens) (freq tokens k)"
    unfolding r by (rule sorted_wrt_take)
  have 4: "0 \<le> k \<longrightarrow> length (freq tokens k) = min (nat k) (card (set tokens))"
    unfolding r using nk by (auto simp: length_Counter)
  have 5: "count_list tokens v \<le> snd a \<and> rank_before tokens a (v, count_list tokens v)"
    if a: "a \<in> set (freq tokens k)" and v: "v \<in> set tokens" "v \<notin> fst ` set (freq tokens k)" for a v
  proof -
    let ?b = "(v, count_list tokens v)"
    from v(1) have "?b \<in> set ?S" by (simp add: set_Counter)
    then have "?b \<in> set (take n ?S) \<union> set (drop n ?S)"
      by (metis append_take_drop_id set_append)
    moreover from v(2) have "?b \<notin> set (take n ?S)"
      unfolding r by force
    ultimately have "?b \<in> set (drop n ?S)" by blast
    moreover from S have "sorted_wrt (rank_before tokens) (take n ?S @ drop n ?S)" by simp
    ultimately have "rank_before tokens a ?b"
      using a unfolding r sorted_wrt_append by blast
    then show ?thesis by (auto simp: rank_before_def)
  qed
  have 6: "k \<le> 0 \<longrightarrow> freq tokens k = []"
    by (simp add: freq_def most_common_def)
  have 7: "freq [] k = []"
    by (simp add: freq_def most_common_def Counter_def)
  from 1 2 3 4 5 6 7 show ?thesis by blast
qed

theorem freq_top_k_witness:
  "(0::int) \<le> 2 \<and> (0::int) \<le> 0 \<and>
   freq [3::nat, 7, 2, 7, 3, 5, 2] 2 = [(3, 2), (7, 2)] \<and>
   length (freq [3::nat, 7, 2, 7, 3, 5, 2] 2) = min (nat 2) (card (set [3::nat, 7, 2, 7, 3, 5, 2])) \<and>
   (3, 2) \<in> set (freq [3::nat, 7, 2, 7, 3, 5, 2] 2) \<and>
   2 \<in> set [3::nat, 7, 2, 7, 3, 5, 2] \<and> 2 \<notin> fst ` set (freq [3::nat, 7, 2, 7, 3, 5, 2] 2) \<and>
   rank_before [3::nat, 7, 2, 7, 3, 5, 2] (3, 2) (2, count_list [3::nat, 7, 2, 7, 3, 5, 2] 2) \<and>
   freq [3::nat, 7, 2, 7, 3, 5, 2] 0 = []"
proof -
  let ?t = "[3::nat, 7, 2, 7, 3, 5, 2]"
  note top2 = freq_top_k [of ?t 2]
  note top0 = freq_top_k [of ?t 0]
  have ex: "freq ?t 2 = [(3, 2), (7, 2)]"
    by code_simp
  have mem: "(3, 2) \<in> set (freq ?t 2)" "2 \<in> set ?t" "2 \<notin> fst ` set (freq ?t 2)"
    unfolding ex by simp_all
  have "(0::int) \<le> 2" by simp
  with top2 have len: "length (freq ?t 2) = min (nat 2) (card (set ?t))"
    by blast
  from top2 mem have rk: "rank_before ?t (3, 2) (2, count_list ?t 2)"
    by blast
  have "(0::int) \<le> 0" by simp
  with top0 have "freq ?t 0 = []"
    by blast
  with ex mem len rk show ?thesis
    by simp
qed

section \<open>The stopword set\<close>

text \<open>
  Claim C6. For every base lexicon, policy flag and extra string, \<open>build_stopwords\<close>
  returns the union of the normalized entries of the base lexicon and the normalized
  pieces of the extra string, as a set. The pieces are those of the split at commas:
  joined with commas they give the extra string back, and none contains a comma. Each
  piece is trimmed: it is its trimmed form between two runs of whitespace, and a trimmed
  form that is not empty neither starts nor ends with whitespace. Pieces that are empty
  after trimming are dropped without an error, the others are normalized under the same
  policy.
\<close>

theorem build_stopwords_union:
  "build_stopwords base p extra =
     (\<lambda>w. normalize_arabic w p) ` base \<union>
     (\<lambda>w. normalize_arabic (strip w) p) ` {w \<in> set (split_on 0x2C extra). strip w \<noteq> []} \<and>
   join 0x2C (split_on 0x2C extra) = extra \<and>
   (\<forall>w \<in> set (split_on 0x2C extra).
      0x2C \<notin> set w \<and>
      (\<exists>pre post. w = pre @ strip w @ post \<and> list_all isspace pre \<and> list_all isspace post) \<and>
      (strip w \<noteq> [] \<longrightarrow> \<not> isspace (hd (strip w)) \<and> \<not> isspace (last (strip w))))"
proof (intro conjI ballI impI)
  show "build_stopwords base p extra =
     (\<lambda>w. normalize_arabic w p) ` base \<union>
     (\<lambda>w. normalize_arabic (strip w) p) ` {w \<in> set (split_on 0x2C extra). strip w \<noteq> []}"
  proof (cases "extra = []")
    case True
    then show ?thesis by (auto simp: build_stopwords_def strip_Nil)
  next
    case False
    then show ?thesis by (auto simp: build_stopwords_def Let_def)
  qed
next
  show "join 0x2C (split_on 0x2C extra) = extra"
    by (rule join_split_on)
next
  fix w
  assume "w \<in> set (split_on 0x2C extra)"
  then show "0x2C \<notin> set w"
    by (rule split_on_no_sep)
next
  fix w
  show "\<exists>pre post. w = pre @ strip w @ post \<and> list_all isspace pre \<and> list_all isspace post"
    by (rule strip_decompose_all)
next
  fix w
  assume "strip w \<noteq> []"
  then show "\<not> isspace (hd (strip w))" by (simp add: strip_ends)
next
  fix w
  assume "strip w \<noteq> []"
  then show "\<not> isspace (last (strip w))" by (simp add: strip_ends)
qed

lemma split_example:
  "split_on 0x2C (ascii '' a, ,,b c ,'') = [ascii '' a'', ascii '' '', [], ascii ''b c '', []]"
  by (simp add: ascii_def)

lemma strip_example:
  "strip (ascii '' a'') = ascii ''a''" "strip (ascii '' '') = []" "strip [] = []"
  "strip (ascii ''b c '') = ascii ''b c''"
  by (simp_all add: strip_def ascii_def isspace_def in_ranges_def)

lemma normalize_example:
  "normalize_arabic [0x0623, 0x0649] True = [0x0627, 0x064A]"
  "normalize_arabic (ascii ''a'') True = ascii ''a''"
  "normalize_arabic (ascii ''b c'') True = ascii ''b c''"
  by (simp_all add: normalize_arabic_chars norm_char_def one_of_def in_ranges_def ascii_def)

lemma pieces_example:
  "{w \<in> set (split_on 0x2C (ascii '' a, ,,b c ,'')). strip w \<noteq> []} = {ascii '' a'', ascii ''b c ''}"
  unfolding split_example using strip_example by (auto simp: ascii_def)

theorem build_stopwords_union_witness:
  "build_stopwords {[0x0623, 0x0649]} True (ascii '' a, ,,b c ,'')
     = {[0x0627, 0x064A], ascii ''a'', ascii ''b c''} \<and>
   split_on 0x2C (ascii '' a, ,,b c ,'') = [ascii '' a'', ascii '' '', [], ascii ''b c '', []] \<and>
   ascii ''b c '' \<in> set (split_on 0x2C (ascii '' a, ,,b c ,'')) \<and>
   strip (ascii ''b c '') = ascii ''b c'' \<and> strip (ascii ''b c '') \<noteq> [] \<and>
   \<not> isspace (hd (strip (ascii ''b c ''))) \<and> \<not> isspace (last (strip (ascii ''b c '')))"
proof -
  note u = build_stopwords_union [of "{[0x0623, 0x0649]}" True "ascii '' a, ,,b c ,''"]
  have mem: "ascii ''b c '' \<in> set (split_on 0x2C (ascii '' a, ,,b c ,''))"
    unfolding split_example by simp
  have ne: "strip (ascii ''b c '') \<noteq> []"
    unfolding strip_example by (simp add: ascii_def)
  from u mem ne have ends: "\<not> isspace (hd (strip (ascii ''b c ''))) \<and> \<not> isspace (last (strip (ascii ''b c '')))"
    by blast
  from u have "build_stopwords {[0x0623, 0x0649]} True (ascii '' a, ,,b c ,'')
      = (\<lambda>w. normalize_arabic w True) ` {[0x0623, 0x0649]} \<union>
        (\<lambda>w. normalize_arabic (strip w) True) ` {w \<in> set (split_on 0x2C (ascii '' a, ,,b c ,'')). strip w \<noteq> []}"
    by blast
  then have "build_stopwords {[0x0623, 0x0649]} True (ascii '' a, ,,b c ,'')
     = {[0x0627, 0x064A], ascii ''a'', ascii ''b c''}"
    unfolding pieces_example by (auto simp: strip_example normalize_example)
  with mem ne ends show ?thesis
    by (simp add: split_example strip_example)
qed

text \<open>
  Claim C10. Every element of the set that \<open>build_stopwords\<close> returns is a fixed point
  of the normalization under the policy the set was built with, for every base lexicon,
  policy flag and extra string.
\<close>

theorem build_stopwords_fixed:
  "\<forall>s \<in> build_stopwords base p e. normalize_arabic s p = s"
  by (auto simp: build_stopwords_def Let_def normalize_arabic_twice)

lemma build_example_a: "normalize_arabic [0x0623, 0x0649] True = [0x0627, 0x064A]"
  by (simp add: normalize_arabic_chars norm_char_def one_of_def in_ranges_def)

lemma build_example_mem:
  "[0x0627, 0x064A] \<in> build_stopwords {[0x0623, 0x0649]} True (ascii '' a, ,,b c ,'')"
  by (simp add: build_stopwords_def Let_def build_example_a)

theorem build_stopwords_fixed_witness:
  "[0x0627, 0x064A] \<in> build_stopwords {[0x0623, 0x0649]} True (ascii '' a, ,,b c ,'')
   \<and> normalize_arabic [0x0627, 0x064A] True = [0x0627, 0x064A]"
  using build_stopwords_fixed [of "{[0x0623, 0x0649]}" True "ascii '' a, ,,b c ,''"]
  by (simp add: build_example_mem)

section \<open>Numbers outside dates\<close>

text \<open>
  Claim C8. For every raw text, \<open>extract_numbers_excluding_dates\<close> returns, in their
  order, exactly the matches of the number pattern (an integer or a decimal) whose start
  offset \<open>s\<close> lies in no span \<open>(ds, de)\<close> of a match of the ISO or the slash date pattern,
  that is, for which no date span has \<open>ds \<le> s < de\<close>. For the text
  \<^verbatim>\<open>2025-09-09 and 120\<close>, \<open>extract_dates\<close> returns \<^verbatim>\<open>2025-09-09\<close> alone and
  \<open>extract_numbers_excluding_dates\<close> returns \<^verbatim>\<open>120\<close> alone, whatever the classes
  \<^verbatim>\<open>\d\<close> and \<^verbatim>\<open>\w\<close> hold beyond ASCII.
\<close>

theorem extract_numbers_excluding_dates_spans:
  "extract_numbers_excluding_dates d w text =
     map (group0 text)
       (filter (\<lambda>(s, e). \<not> (\<exists>(ds, de) \<in> set (finditer (DATE_ISO d w) text) \<union>
                                         set (finditer (DATE_SL d w) text). ds \<le> s \<and> s < de))
          (finditer (NUM_RE d w) text)) \<and>
   ((\<forall>c<128. d c = ascii_digit c \<and> w c = ascii_word c) \<longrightarrow>
      extract_dates d w (ascii ''2025-09-09 and 120'') = [ascii ''2025-09-09''] \<and>
      extract_numbers_excluding_dates d w (ascii ''2025-09-09 and 120'') = [ascii ''120''])"
proof (intro conjI impI)
  show "extract_numbers_excluding_dates d w text =
     map (group0 text)
       (filter (\<lambda>(s, e). \<not> (\<exists>(ds, de) \<in> set (finditer (DATE_ISO d w) text) \<union>
                                         set (finditer (DATE_SL d w) text). ds \<le> s \<and> s < de))
          (finditer (NUM_RE d w) text))"
    by (simp add: extract_numbers_excluding_dates_def find_spans_def nums_loop_filter)
next
  assume a: "\<forall>c<128. d c = ascii_digit c \<and> w c = ascii_word c"
  show "extract_dates d w (ascii ''2025-09-09 and 120'') = [ascii ''2025-09-09'']"
    by (simp add: extract_dates_def findall_def date_iso_example [OF a] date_sl_example [OF a]
        group0_date)
next
  assume a: "\<forall>c<128. d c = ascii_digit c \<and> w c = ascii_word c"
  show "extract_numbers_excluding_dates d w (ascii ''2025-09-09 and 120'') = [ascii ''120'']"
    by (simp add: extract_numbers_excluding_dates_def find_spans_def nums_loop_filter
        date_iso_example [OF a] date_sl_example [OF a] num_example [OF a] group0_date)
qed

theorem extract_numbers_excluding_dates_spans_witness:
  "extract_dates ascii_digit ascii_word (ascii ''2025-09-09 and 120'') = [ascii ''2025-09-09''] \<and>
   extract_numbers_excluding_dates ascii_digit ascii_word (ascii ''2025-09-09 and 120'')
     = [ascii ''120''] \<and>
   extract_dates ascii_digit ascii_word (ascii ''1/2/2024 x12 3.14 7'') = [ascii ''1/2/2024''] \<and>
   extract_numbers_excluding_dates ascii_digit ascii_word (ascii ''1/2/2024 x12 3.14 7'')
     = [ascii ''3.14'', ascii ''7'']"
proof -
  have "\<forall>c<128. ascii_digit c = ascii_digit c \<and> ascii_word c = ascii_word c"
    by simp
  with extract_numbers_excluding_dates_spans [of ascii_digit ascii_word]
  have "extract_dates ascii_digit ascii_word (ascii ''2025-09-09 and 120'') = [ascii ''2025-09-09''] \<and>
      extract_numbers_excluding_dates ascii_digit ascii_word (ascii ''2025-09-09 and 120'')
        = [ascii ''120'']"
    by blast
  moreover have "extract_dates ascii_digit ascii_word (ascii ''1/2/2024 x12 3.14 7'') = [ascii ''1/2/2024'']"
    by code_simp
  moreover have "extract_numbers_excluding_dates ascii_digit ascii_word (ascii ''1/2/2024 x12 3.14 7'')
     = [ascii ''3.14'', ascii ''7'']"
    by code_simp
  ultimately show ?thesis by blast
qed

section \<open>The scores of the collocations\<close>

text \<open>
  The score of the claim C1 as the spec states it, with the bigram count divided by the
  number \<open>L - 1\<close> of bigram positions, is not the score of the program: on the tokens
  a, b, a, b with minimum frequency 1 the bigram (a, b) is scored 1, and
  \<open>log2 ((2/3) / ((2/4) * (2/4)))\<close> is not 1.
\<close>

theorem scored_pmi_counterexample:
  "map_of (scored [ascii ''a'', ascii ''b'', ascii ''a'', ascii ''b''] 1) (ascii ''a'', ascii ''b'') = Some 1 \<and>
   log 2 ((2 / 3) / ((2 / 4) * (2 / 4))) \<noteq> 1"
proof
  show "map_of (scored [ascii ''a'', ascii ''b'', ascii ''a'', ascii ''b''] 1) (ascii ''a'', ascii ''b'') = Some 1"
    by (rule abab_score)
  show "log 2 ((2 / 3) / ((2 / 4) * (2 / 4))) \<noteq> (1::real)"
    using spec_value by linarith
qed

text \<open>
  Claim C1, amended. For every token sequence, each bigram that survives the
  minimum-frequency filter is scored with \<open>log2 (P(w1,w2) / (P(w1) * P(w2)))\<close>, where
  \<open>P(w1,w2) = count(w1,w2) / N\<close> and \<open>P(w) = count(w) / N\<close> with the same total \<open>N\<close> for
  both, the number \<open>L\<close> of tokens; nothing else is scored. For the tokens a, b, a, b with
  minimum frequency 1 the score of (a, b) is \<open>log2 ((2/4) / ((2/4) * (2/4))) = 1\<close>.
\<close>

theorem scored_pmi:
  "(\<forall>w1 w2. survives tokens mf (w1, w2) \<longrightarrow>
      map_of (scored tokens mf) (w1, w2) =
        Some (log 2 ((real (count_list (bigrams tokens) (w1, w2)) / real (length tokens)) /
                ((real (count_list tokens w1) / real (length tokens)) *
                 (real (count_list tokens w2) / real (length tokens)))))) \<and>
   (\<forall>(bg, s) \<in> set (scored tokens mf). survives tokens mf bg \<and> map_of (scored tokens mf) bg = Some s) \<and>
   map_of (scored [ascii ''a'', ascii ''b'', ascii ''a'', ascii ''b''] 1) (ascii ''a'', ascii ''b'')
     = Some (log 2 ((2 / 4) / ((2 / 4) * (2 / 4)))) \<and>
   log 2 ((2 / 4) / ((2 / 4) * (2 / 4))) = 1"
proof (intro conjI allI impI)
  fix w1 w2
  assume s: "survives tokens mf (w1, w2)"
  then have "(w1, w2) \<in> set (bigrams tokens)" by (simp add: survives_def)
  then show "map_of (scored tokens mf) (w1, w2) =
        Some (log 2 ((real (count_list (bigrams tokens) (w1, w2)) / real (length tokens)) /
                ((real (count_list tokens w1) / real (length tokens)) *
                 (real (count_list tokens w2) / real (length tokens)))))"
    using score_lookup [OF s] by (simp only: nltk_pmi_ratio)
next
  show "\<forall>(bg, s) \<in> set (scored tokens mf). survives tokens mf bg \<and> map_of (scored tokens mf) bg = Some s"
    using distinct_scored [of tokens mf] by (auto simp: set_scored)
next
  have "log 2 ((2 / 4) / ((2 / 4) * (2 / 4))) = (1::real)" by simp
  then show "map_of (scored [ascii ''a'', ascii ''b'', ascii ''a'', ascii ''b''] 1) (ascii ''a'', ascii ''b'')
     = Some (log 2 ((2 / 4) / ((2 / 4) * (2 / 4))))"
    using abab_score by simp
next
  show "log 2 ((2 / 4) / ((2 / 4) * (2 / 4))) = (1::real)" by simp
qed

theorem scored_pmi_witness:
  "survives [ascii ''a'', ascii ''b'', ascii ''a'', ascii ''b''] 1 (ascii ''a'', ascii ''b'') \<and>
   map_of (scored [ascii ''a'', ascii ''b'', ascii ''a'', ascii ''b''] 1) (ascii ''a'', ascii ''b'')
     = Some (log 2 ((2 / 4) / ((2 / 4) * (2 / 4)))) \<and>
   map_of (scored [ascii ''a'', ascii ''b'', ascii ''a'', ascii ''b''] 1) (ascii ''a'', ascii ''b'')
     = Some (log 2 ((real (count_list (bigrams [ascii ''a'', ascii ''b'', ascii ''a'', ascii ''b''])
                            (ascii ''a'', ascii ''b'')) / real (length [ascii ''a'', ascii ''b'', ascii ''a'', ascii ''b''])) /
                ((real (count_list [ascii ''a'', ascii ''b'', ascii ''a'', ascii ''b''] (ascii ''a''))
                    / real (length [ascii ''a'', ascii ''b'', ascii ''a'', ascii ''b''])) *
                 (real (count_list [ascii ''a'', ascii ''b'', ascii ''a'', ascii ''b''] (ascii ''b''))
                    / real (length [ascii ''a'', ascii ''b'', ascii ''a'', ascii ''b''])))))"
  using scored_pmi [of "[ascii ''a'', ascii ''b'', ascii ''a'', ascii ''b'']" 1] abab_survives
  by blast

section \<open>The order of the scored collocations\<close>



section \<open>The bigrams that are scored\<close>

text \<open>
  Claim C3. For every token sequence of length \<open>L\<close> and every integer \<open>minFreq\<close>, the
  bigrams that are scored are exactly the adjacent bigrams whose number of occurrences
  among the bigrams is at least \<open>max 1 minFreq\<close>; the bigrams are the \<open>L - 1\<close> pairs of a
  token and its successor; the filter reads the counts of the bigrams, not of the
  tokens; for \<open>L < 2\<close> nothing is scored.
\<close>

theorem scored_bigrams:
  "fst ` set (scored tokens mf) =
     {bg \<in> set (bigrams tokens). max 1 mf \<le> int (count_list (bigrams tokens) bg)} \<and>
   length (bigrams tokens) = length tokens - 1 \<and>
   (\<forall>i. Suc i < length tokens \<longrightarrow> bigrams tokens ! i = (tokens ! i, tokens ! Suc i)) \<and>
   (length tokens < 2 \<longrightarrow> scored tokens mf = [])"
  using scored_keys length_bigrams nth_bigrams scored_short by blast

theorem scored_bigrams_witness:
  "fst ` set (scored [ascii ''a'', ascii ''b'', ascii ''a'', ascii ''b'', ascii ''c''] 2)
     = {(ascii ''a'', ascii ''b'')} \<and>
   count_list [ascii ''a'', ascii ''b'', ascii ''a'', ascii ''b'', ascii ''c''] (ascii ''b'') = 2 \<and>
   count_list (bigrams [ascii ''a'', ascii ''b'', ascii ''a'', ascii ''b'', ascii ''c''])
     (ascii ''b'', ascii ''c'') = 1 \<and>
   Suc 0 < length [ascii ''a'', ascii ''b'', ascii ''a'', ascii ''b'', ascii ''c''] \<and>
   bigrams [ascii ''a'', ascii ''b'', ascii ''a'', ascii ''b'', ascii ''c''] ! 0
     = (ascii ''a'', ascii ''b'') \<and>
   length [ascii ''a''] < 2 \<and> scored [ascii ''a''] 2 = []"
proof -
  let ?t = "[ascii ''a'', ascii ''b'', ascii ''a'', ascii ''b'', ascii ''c'']"
  note t = scored_bigrams [of ?t 2]
  note s = scored_bigrams [of "[ascii ''a'']" 2]
  have "{bg \<in> set (bigrams ?t). max 1 2 \<le> int (count_list (bigrams ?t) bg)} = {(ascii ''a'', ascii ''b'')}"
    by (auto simp: bigrams_def ascii_def)
  with t have 1: "fst ` set (scored ?t 2) = {(ascii ''a'', ascii ''b'')}"
    by simp
  have 2: "count_list ?t (ascii ''b'') = 2" "count_list (bigrams ?t) (ascii ''b'', ascii ''c'') = 1"
    by (simp_all add: bigrams_def ascii_def)
  have 3: "Suc 0 < length ?t" by simp
  with t have 4: "bigrams ?t ! 0 = (?t ! 0, ?t ! Suc 0)" by blast
  have 5: "length [ascii ''a''] < 2" by simp
  with s have 6: "scored [ascii ''a''] 2 = []" by blast
  from 1 2 3 4 5 6 show ?thesis by simp
qed

end
